theory Spec2Isabelle
  imports Main "HOL-Library.Word"
begin

section \<open>JavaScript strings and the platform functions the page calls\<close>

text \<open>
  A JavaScript string is a sequence of UTF-16 code units; a chunk delivered by
  \<^verbatim>\<open>reader.read()\<close> is a \<^verbatim>\<open>Uint8Array\<close>, a sequence of bytes.
\<close>

type_synonym jsstring = "16 word list"
type_synonym bytes = "8 word list"

definition ascii :: "string \<Rightarrow> jsstring" where
  "ascii s = map of_char s"

definition utf8_ascii :: "string \<Rightarrow> bytes" where
  "utf8_ascii s = map of_char s"

subsection \<open>\<^verbatim>\<open>new TextDecoder().decode(value)\<close>\<close>

text \<open>
  The UTF-8 decoder of the Encoding standard, in replacement mode (the default
  \<^verbatim>\<open>fatal: false\<close>). \<open>Pending cp k lo hi\<close> is a started multi-byte sequence: the code
  point bits read so far, the number of continuation bytes still needed, and the range
  allowed for the next byte. A byte outside that range ends the sequence with U+FFFD and
  is then handled again as a lead byte; the end of the input with a sequence still
  pending gives U+FFFD too, which is what a call without \<^verbatim>\<open>{stream: true}\<close> does.
\<close>

datatype utf8_state = Idle | Pending nat nat nat nat

definition utf8_lead :: "8 word \<Rightarrow> nat list \<times> utf8_state" where
  "utf8_lead b = (let n = unat b in
     if n \<le> 0x7F then ([n], Idle)
     else if 0xC2 \<le> n \<and> n \<le> 0xDF then ([], Pending (n mod 32) 1 0x80 0xBF)
     else if 0xE0 \<le> n \<and> n \<le> 0xEF then
       ([], Pending (n mod 16) 2 (if n = 0xE0 then 0xA0 else 0x80)
                                 (if n = 0xED then 0x9F else 0xBF))
     else if 0xF0 \<le> n \<and> n \<le> 0xF4 then
       ([], Pending (n mod 8) 3 (if n = 0xF0 then 0x90 else 0x80)
                                (if n = 0xF4 then 0x8F else 0xBF))
     else ([0xFFFD], Idle))"

fun utf8_run :: "utf8_state \<Rightarrow> bytes \<Rightarrow> nat list" where
  "utf8_run Idle [] = []"
| "utf8_run (Pending cp k lo hi) [] = [0xFFFD]"
| "utf8_run Idle (b # bs) = (case utf8_lead b of (out, s) \<Rightarrow> out @ utf8_run s bs)"
| "utf8_run (Pending cp k lo hi) (b # bs) =
     (let n = unat b in
      if n < lo \<or> hi < n then
        0xFFFD # (case utf8_lead b of (out, s) \<Rightarrow> out @ utf8_run s bs)
      else if k = 1 then (cp * 64 + n mod 64) # utf8_run Idle bs
      else utf8_run (Pending (cp * 64 + n mod 64) (k - 1) 0x80 0xBF) bs)"

text \<open>A code point as UTF-16: one code unit, or a surrogate pair above U+FFFF.\<close>

definition utf16 :: "nat \<Rightarrow> jsstring" where
  "utf16 cp = (if cp < 0x10000 then [of_nat cp]
     else [of_nat (0xD800 + (cp - 0x10000) div 0x400),
           of_nat (0xDC00 + (cp - 0x10000) mod 0x400)])"

text \<open>A fresh decoder (\<^verbatim>\<open>ignoreBOM: false\<close>) drops a leading U+FEFF of its output.\<close>

definition strip_bom :: "nat list \<Rightarrow> nat list" where
  "strip_bom cps = (case cps of [] \<Rightarrow> [] | c # cs \<Rightarrow> if c = 0xFEFF then cs else c # cs)"

definition decode :: "bytes \<Rightarrow> jsstring" where
  "decode bs = concat (map utf16 (strip_bom (utf8_run Idle bs)))"

subsection \<open>\<^verbatim>\<open>buffer.split('\n\n')\<close>\<close>

definition LF :: "16 word" where
  "LF = 0x0A"

text \<open>
  \<^verbatim>\<open>String.prototype.split\<close> with the two-character separator: the occurrences are
  found from the left and do not overlap; the result is never empty (the empty string
  gives one empty segment).
\<close>

fun split_sep :: "jsstring \<Rightarrow> jsstring \<Rightarrow> jsstring list" where
  "split_sep seg [] = [seg]"
| "split_sep seg [a] = [seg @ [a]]"
| "split_sep seg (a # b # rest) =
     (if a = LF \<and> b = LF then seg # split_sep [] rest
      else split_sep (seg @ [a]) (b # rest))"

definition split :: "jsstring \<Rightarrow> jsstring list" where
  "split s = split_sep [] s"

subsection \<open>\<^verbatim>\<open>input.trim()\<close>\<close>

text \<open>The code units ECMAScript counts as white space or as line terminators.\<close>

definition is_whitespace :: "16 word \<Rightarrow> bool" where
  "is_whitespace c \<longleftrightarrow>
     c = 0x09 \<or> c = 0x0A \<or> c = 0x0B \<or> c = 0x0C \<or> c = 0x0D \<or> c = 0x20 \<or> c = 0xA0 \<or>
     c = 0x1680 \<or> (0x2000 \<le> c \<and> c \<le> 0x200A) \<or> c = 0x2028 \<or> c = 0x2029 \<or>
     c = 0x202F \<or> c = 0x205F \<or> c = 0x3000 \<or> c = 0xFEFF"

definition trim :: "jsstring \<Rightarrow> jsstring" where
  "trim s = rev (dropWhile is_whitespace (rev (dropWhile is_whitespace s)))"

subsection \<open>\<^verbatim>\<open>JSON.parse\<close>\<close>

text \<open>
  The values \<^verbatim>\<open>JSON.parse\<close> can return. A number keeps the text it was written with:
  its value is a double, and the page only ever converts it to a string or tests it for
  truth. An object is only ever read by key, and holds each key once (a repeated key keeps
  the last value).
\<close>

datatype jsval =
    JNull
  | JBool bool
  | JNum jsstring
  | JStr jsstring
  | JArr "jsval list"
  | JObj "(jsstring \<times> jsval) list"

datatype token =
    TLBrace | TRBrace | TLBrack | TRBrack | TColon | TComma
  | TString jsstring | TNumber jsstring | TTrue | TFalse | TNull

definition is_digit :: "16 word \<Rightarrow> bool" where
  "is_digit c \<longleftrightarrow> 0x30 \<le> c \<and> c \<le> 0x39"

definition is_json_ws :: "16 word \<Rightarrow> bool" where
  "is_json_ws c \<longleftrightarrow> c = 0x20 \<or> c = 0x09 \<or> c = 0x0A \<or> c = 0x0D"

definition hex_val :: "16 word \<Rightarrow> nat option" where
  "hex_val c =
     (if 0x30 \<le> c \<and> c \<le> 0x39 then Some (unat c - 0x30)
      else if 0x41 \<le> c \<and> c \<le> 0x46 then Some (unat c - 0x41 + 10)
      else if 0x61 \<le> c \<and> c \<le> 0x66 then Some (unat c - 0x61 + 10)
      else None)"

definition hex4 :: "16 word \<Rightarrow> 16 word \<Rightarrow> 16 word \<Rightarrow> 16 word \<Rightarrow> 16 word option" where
  "hex4 a b c d =
     (case (hex_val a, hex_val b, hex_val c, hex_val d) of
        (Some w, Some x, Some y, Some z) \<Rightarrow> Some (of_nat (((w * 16 + x) * 16 + y) * 16 + z))
      | _ \<Rightarrow> None)"

definition unescape :: "16 word \<Rightarrow> 16 word option" where
  "unescape e =
     (if e = 0x22 then Some 0x22 else if e = 0x5C then Some 0x5C
      else if e = 0x2F then Some 0x2F else if e = 0x62 then Some 0x08
      else if e = 0x66 then Some 0x0C else if e = 0x6E then Some 0x0A
      else if e = 0x72 then Some 0x0D else if e = 0x74 then Some 0x09
      else None)"

definition cons_fst :: "'a \<Rightarrow> ('a list \<times> 'b) option \<Rightarrow> ('a list \<times> 'b) option" where
  "cons_fst x r = (case r of None \<Rightarrow> None | Some (s, rest) \<Rightarrow> Some (x # s, rest))"

text \<open>
  The body of a string literal, after the opening quote: the decoded string and the text
  after the closing quote. A raw control character is a syntax error.
\<close>

fun lex_string :: "jsstring \<Rightarrow> (jsstring \<times> jsstring) option" where
  "lex_string [] = None"
| "lex_string (c # cs) =
     (if c = 0x22 then Some ([], cs)
      else if c = 0x5C then
        (case cs of
           [] \<Rightarrow> None
         | e # es \<Rightarrow>
             if e = 0x75 then
               (case es of
                  h1 # h2 # h3 # h4 # rest \<Rightarrow>
                    (case hex4 h1 h2 h3 h4 of
                       None \<Rightarrow> None
                     | Some u \<Rightarrow> cons_fst u (lex_string rest))
                | _ \<Rightarrow> None)
             else
               (case unescape e of
                  None \<Rightarrow> None
                | Some x \<Rightarrow> cons_fst x (lex_string es)))
      else if c < 0x20 then None
      else cons_fst c (lex_string cs))"

text \<open>
  A number literal, \<^verbatim>\<open>-? (0 | [1-9][0-9]*) (. [0-9]+)? ([eE] [+-]? [0-9]+)?\<close>: the
  length of each part at the head of the text.
\<close>

definition number_int :: "jsstring \<Rightarrow> nat option" where
  "number_int s =
     (let m = (if take 1 s = [0x2D] then 1 else 0);
          ds = takeWhile is_digit (drop m s)
      in if ds = [] then None
         else if hd ds = 0x30 then Some (m + 1)
         else Some (m + length ds))"

definition number_frac :: "jsstring \<Rightarrow> nat option" where
  "number_frac s =
     (if take 1 s = [0x2E] then
        (let ds = takeWhile is_digit (drop 1 s)
         in if ds = [] then None else Some (1 + length ds))
      else Some 0)"

definition number_exp :: "jsstring \<Rightarrow> nat option" where
  "number_exp s =
     (if take 1 s = [0x65] \<or> take 1 s = [0x45] then
        (let m = (if take 1 (drop 1 s) = [0x2B] \<or> take 1 (drop 1 s) = [0x2D] then 2 else 1);
             ds = takeWhile is_digit (drop m s)
         in if ds = [] then None else Some (m + length ds))
      else Some 0)"

definition lex_number :: "jsstring \<Rightarrow> (jsstring \<times> jsstring) option" where
  "lex_number s =
     (case number_int s of
        None \<Rightarrow> None
      | Some i \<Rightarrow>
          (case number_frac (drop i s) of
             None \<Rightarrow> None
           | Some f \<Rightarrow>
               (case number_exp (drop (i + f) s) of
                  None \<Rightarrow> None
                | Some e \<Rightarrow> Some (take (i + f + e) s, drop (i + f + e) s))))"

definition cons_tok :: "token \<Rightarrow> token list option \<Rightarrow> token list option" where
  "cons_tok t r = (case r of None \<Rightarrow> None | Some ts \<Rightarrow> Some (t # ts))"

text \<open>The tokens of a JSON text; \<open>None\<close> is a syntax error.\<close>

function lex :: "jsstring \<Rightarrow> token list option" where
  "lex [] = Some []"
| "lex (c # cs) =
     (if is_json_ws c then lex cs
      else if c = 0x7B then cons_tok TLBrace (lex cs)
      else if c = 0x7D then cons_tok TRBrace (lex cs)
      else if c = 0x5B then cons_tok TLBrack (lex cs)
      else if c = 0x5D then cons_tok TRBrack (lex cs)
      else if c = 0x3A then cons_tok TColon (lex cs)
      else if c = 0x2C then cons_tok TComma (lex cs)
      else if c = 0x22 then
        (case lex_string cs of
           None \<Rightarrow> None
         | Some (s, rest) \<Rightarrow> cons_tok (TString s) (lex rest))
      else if c = 0x2D \<or> is_digit c then
        (case lex_number (c # cs) of
           None \<Rightarrow> None
         | Some (l, rest) \<Rightarrow> cons_tok (TNumber l) (lex rest))
      else if take 4 (c # cs) = ascii ''true'' then cons_tok TTrue (lex (drop 3 cs))
      else if take 5 (c # cs) = ascii ''false'' then cons_tok TFalse (lex (drop 4 cs))
      else if take 4 (c # cs) = ascii ''null'' then cons_tok TNull (lex (drop 3 cs))
      else None)"
  by pat_completeness auto
termination
proof -
  have lex_string_shorter:
    "\<And>cs s rest. lex_string cs = Some (s, rest) \<Longrightarrow> length rest < length cs"
  proof -
    fix cs :: jsstring and s rest
    show "lex_string cs = Some (s, rest) \<Longrightarrow> length rest < length cs"
    proof (induction cs arbitrary: s rest rule: lex_string.induct)
      case 1
      then show ?case by simp
    next
      case (2 c cs)
      show ?case
      proof (cases "c = 0x22")
        case True
        with "2.prems" show ?thesis by simp
      next
        case notq: False
        show ?thesis
        proof (cases "c = 0x5C")
          case bs: True
          show ?thesis
          proof (cases cs)
            case Nil
            with "2.prems" notq bs show ?thesis by simp
          next
            case (Cons e es)
            show ?thesis
            proof (cases "e = 0x75")
              case u: True
              from "2.prems" notq bs Cons u obtain h1 h2 h3 h4 rest' v s'
                where es: "es = h1 # h2 # h3 # h4 # rest'"
                  and hx: "hex4 h1 h2 h3 h4 = Some v"
                  and rec: "lex_string rest' = Some (s', rest)"
                by (auto simp: cons_fst_def split: list.splits option.splits)
              from "2.IH"(1)[OF notq bs Cons u es refl refl refl hx rec]
              show ?thesis using Cons es by simp
            next
              case nu: False
              from "2.prems" notq bs Cons nu obtain x s'
                where ue: "unescape e = Some x" and rec: "lex_string es = Some (s', rest)"
                by (auto simp: cons_fst_def split: option.splits)
              from "2.IH"(2)[OF notq bs Cons nu ue rec]
              show ?thesis using Cons by simp
            qed
          qed
        next
          case nbs: False
          from "2.prems" notq nbs obtain s'
            where ctl: "\<not> c < 0x20" and rec: "lex_string cs = Some (s', rest)"
            by (auto simp: cons_fst_def split: if_splits option.splits)
          from "2.IH"(3)[OF notq nbs ctl rec] show ?thesis by simp
        qed
      qed
    qed
  qed
  have lex_number_shorter:
    "\<And>s l rest. lex_number s = Some (l, rest) \<Longrightarrow> length rest < length s"
  proof -
    fix s :: jsstring and l rest
    assume assms: "lex_number s = Some (l, rest)"
    show "length rest < length s"
    proof -
      from assms obtain i f e where i: "number_int s = Some i"
        and rest: "rest = drop (i + f + e) s"
        by (auto simp: lex_number_def split: option.splits)
      from i have "0 < i" and "s \<noteq> []"
        by (auto simp: number_int_def Let_def split: if_splits)
      with rest show ?thesis by simp
    qed
  qed
  show ?thesis
  proof (relation "measure length")
    show "wf (measure length)" by simp
  next
    fix c cs x2 x y
    assume "lex_string cs = Some x2" and "(x, y) = x2"
    then have "lex_string cs = Some (x, y)" by simp
    from lex_string_shorter[OF this] show "(y, c # cs) \<in> measure length" by simp
  next
    fix c cs x2 x y
    assume "lex_number (c # cs) = Some x2" and "(x, y) = x2"
    then have "lex_number (c # cs) = Some (x, y)" by simp
    from lex_number_shorter[OF this] show "(y, c # cs) \<in> measure length" by simp
  qed auto
qed

text \<open>
  The grammar over the tokens, as a machine with a stack of the arrays and objects that
  are still open. An \<open>ArrF\<close> frame waits for the next element of its array, an
  \<open>ObjF\<close> frame for the value of its key.
\<close>

datatype frame =
    ArrF "jsval list"
  | ObjF "(jsstring \<times> jsval) list" jsstring

datatype pstate =
    ExpectValue "frame list"
  | ArrStart "frame list"
  | InArr "jsval list" "frame list"
  | ObjStart "frame list"
  | ExpectKey "(jsstring \<times> jsval) list" "frame list"
  | ExpectColon "(jsstring \<times> jsval) list" jsstring "frame list"
  | InObj "(jsstring \<times> jsval) list" "frame list"
  | Done jsval
  | Failed

fun set_key :: "jsstring \<Rightarrow> jsval \<Rightarrow> (jsstring \<times> jsval) list \<Rightarrow> (jsstring \<times> jsval) list" where
  "set_key k v [] = [(k, v)]"
| "set_key k v ((k', v') # kvs) =
     (if k' = k then (k, v) # kvs else (k', v') # set_key k v kvs)"

fun deliver :: "jsval \<Rightarrow> frame list \<Rightarrow> pstate" where
  "deliver v [] = Done v"
| "deliver v (ArrF vs # ctx) = InArr (vs @ [v]) ctx"
| "deliver v (ObjF kvs k # ctx) = InObj (set_key k v kvs) ctx"

fun value_start :: "token \<Rightarrow> frame list \<Rightarrow> pstate" where
  "value_start (TString s) ctx = deliver (JStr s) ctx"
| "value_start (TNumber l) ctx = deliver (JNum l) ctx"
| "value_start TTrue ctx = deliver (JBool True) ctx"
| "value_start TFalse ctx = deliver (JBool False) ctx"
| "value_start TNull ctx = deliver JNull ctx"
| "value_start TLBrack ctx = ArrStart ctx"
| "value_start TLBrace ctx = ObjStart ctx"
| "value_start TRBrack ctx = Failed"
| "value_start TRBrace ctx = Failed"
| "value_start TColon ctx = Failed"
| "value_start TComma ctx = Failed"

fun pstep :: "pstate \<Rightarrow> token \<Rightarrow> pstate" where
  "pstep (ExpectValue ctx) t = value_start t ctx"
| "pstep (ArrStart ctx) t =
     (if t = TRBrack then deliver (JArr []) ctx else value_start t (ArrF [] # ctx))"
| "pstep (InArr vs ctx) t =
     (if t = TComma then ExpectValue (ArrF vs # ctx)
      else if t = TRBrack then deliver (JArr vs) ctx
      else Failed)"
| "pstep (ObjStart ctx) t =
     (case t of
        TRBrace \<Rightarrow> deliver (JObj []) ctx
      | TString k \<Rightarrow> ExpectColon [] k ctx
      | _ \<Rightarrow> Failed)"
| "pstep (ExpectKey kvs ctx) t =
     (case t of TString k \<Rightarrow> ExpectColon kvs k ctx | _ \<Rightarrow> Failed)"
| "pstep (ExpectColon kvs k ctx) t =
     (if t = TColon then ExpectValue (ObjF kvs k # ctx) else Failed)"
| "pstep (InObj kvs ctx) t =
     (if t = TComma then ExpectKey kvs ctx
      else if t = TRBrace then deliver (JObj kvs) ctx
      else Failed)"
| "pstep (Done v) t = Failed"
| "pstep Failed t = Failed"

text \<open>\<open>None\<close> is the \<^verbatim>\<open>SyntaxError\<close> that \<^verbatim>\<open>JSON.parse\<close> throws.\<close>

definition JSON_parse :: "jsstring \<Rightarrow> jsval option" where
  "JSON_parse s =
     (case lex s of
        None \<Rightarrow> None
      | Some ts \<Rightarrow> (case foldl pstep (ExpectValue []) ts of Done v \<Rightarrow> Some v | _ \<Rightarrow> None))"

subsection \<open>Reading a property, truth and string conversion\<close>

datatype js_error =
    SyntaxError | TypeError | FetchFailed | ResponseNotOk | NoReaderAvailable | ReadFailed

text \<open>
  \<^verbatim>\<open>data.content\<close> and \<^verbatim>\<open>data.status\<close> on a parsed value: reading a property of
  \<^verbatim>\<open>null\<close> throws a \<^verbatim>\<open>TypeError\<close>; an object gives the value stored under the key
  or \<^verbatim>\<open>undefined\<close> (\<open>None\<close>); strings, numbers, booleans and arrays have neither
  property, so they give \<^verbatim>\<open>undefined\<close>.
\<close>

definition get_property :: "jsstring \<Rightarrow> jsval \<Rightarrow> js_error + jsval option" where
  "get_property name data =
     (case data of
        JNull \<Rightarrow> Inl TypeError
      | JObj kvs \<Rightarrow> Inr (map_of kvs name)
      | _ \<Rightarrow> Inr None)"

text \<open>
  The right operand of \<^verbatim>\<open>lastMessage.content + data.content\<close> as the string that is
  appended. A string is appended as it is. The conversion of a number is floating-point
  formatting, and that of an array or object goes through \<^verbatim>\<open>ToPrimitive\<close>; both are
  left to the parameter \<open>conv\<close>, which stands for a conversion that returns (an object
  carrying an own \<^verbatim>\<open>toString\<close> that is not a function makes the conversion throw, and
  is not covered).
\<close>

definition js_to_string :: "(jsval \<Rightarrow> jsstring) \<Rightarrow> jsval \<Rightarrow> jsstring" where
  "js_to_string conv v =
     (case v of
        JStr s \<Rightarrow> s
      | JNull \<Rightarrow> ascii ''null''
      | JBool b \<Rightarrow> (if b then ascii ''true'' else ascii ''false'')
      | _ \<Rightarrow> conv v)"

text \<open>
  \<^verbatim>\<open>if (x)\<close> on a value: whether a number is zero is a property of its double value and
  is left to the parameter \<open>nonzero\<close>.
\<close>

definition truthy :: "(jsstring \<Rightarrow> bool) \<Rightarrow> jsval option \<Rightarrow> bool" where
  "truthy nonzero x =
     (case x of
        None \<Rightarrow> False
      | Some JNull \<Rightarrow> False
      | Some (JBool b) \<Rightarrow> b
      | Some (JNum l) \<Rightarrow> nonzero l
      | Some (JStr s) \<Rightarrow> s \<noteq> []
      | Some (JArr vs) \<Rightarrow> True
      | Some (JObj kvs) \<Rightarrow> True)"

section \<open>The chat page: \<^verbatim>\<open>handleSubmit\<close>\<close>

datatype role = User | Assistant

record message =
  role :: role
  content :: jsstring

text \<open>
  The state of the page that \<^verbatim>\<open>handleSubmit\<close> reads and writes, together with what it
  sends out: the errors given to \<^verbatim>\<open>console.error\<close>, the bodies of the requests posted
  to the chat endpoint, and the errors thrown where no handler catches them.
\<close>

record page =
  messages :: "message list"
  input :: jsstring
  isLoading :: bool
  console_errors :: "js_error list"
  chat_requests :: "message list list"
  uncaught_errors :: "js_error list"

text \<open>What \<^verbatim>\<open>fetch\<close> and the reader deliver; the end of the list of reads is \<^verbatim>\<open>done\<close>.\<close>

datatype read_result = Chunk bytes | ReadFailure

datatype chat_response =
    FetchRejected
  | NotOk "jsval option"
  | OkNoBody
  | OkStream "read_result list"

definition apology :: jsstring where
  "apology = ascii ''Sorry, an error occurred. Please try again.''"

text \<open>The functional update of lines 165 to 176, applied to the current list.\<close>

definition append_delta :: "jsstring \<Rightarrow> message list \<Rightarrow> message list" where
  "append_delta delta prev =
     (let lastMessage = (if prev = [] then \<lparr>role = Assistant, content = []\<rparr> else last prev)
      in butlast prev @ [lastMessage\<lparr>content := content lastMessage @ delta\<rparr>])"

text \<open>One complete record: the body of the \<^verbatim>\<open>for\<close> loop of lines 157 to 182.\<close>

definition process_record :: "(jsval \<Rightarrow> jsstring) \<Rightarrow> jsstring \<Rightarrow> page \<Rightarrow> page" where
  "process_record conv message st =
     (if take 6 message = ascii ''data: '' then
        (case JSON_parse (drop 6 message) of
           None \<Rightarrow> st\<lparr>console_errors := console_errors st @ [SyntaxError]\<rparr>
         | Some data \<Rightarrow>
             (case get_property (ascii ''content'') data of
                Inl e \<Rightarrow> st\<lparr>console_errors := console_errors st @ [e]\<rparr>
              | Inr None \<Rightarrow> st
              | Inr (Some v) \<Rightarrow>
                  st\<lparr>messages := append_delta (js_to_string conv v) (messages st)\<rparr>))
      else st)"

fun process_records :: "(jsval \<Rightarrow> jsstring) \<Rightarrow> jsstring list \<Rightarrow> page \<Rightarrow> page" where
  "process_records conv [] st = st"
| "process_records conv (m # ms) st = process_records conv ms (process_record conv m st)"

text \<open>
  One round of the \<^verbatim>\<open>while\<close> loop after the chunk is decoded (lines 150 to 182): the
  new buffer is the last segment, the segments before it are the complete records.
\<close>

definition process_text :: "(jsval \<Rightarrow> jsstring) \<Rightarrow> jsstring \<Rightarrow> jsstring \<Rightarrow> page \<Rightarrow> jsstring \<times> page" where
  "process_text conv text buffer st =
     (let parts = split (buffer @ text)
      in (last parts, process_records conv (butlast parts) st))"

definition process_chunk :: "(jsval \<Rightarrow> jsstring) \<Rightarrow> bytes \<Rightarrow> jsstring \<Rightarrow> page \<Rightarrow> jsstring \<times> page" where
  "process_chunk conv val buffer st = process_text conv (decode val) buffer st"

text \<open>
  The \<^verbatim>\<open>while (true)\<close> loop over the reads of one response: the page at the end, and
  the error if a read threw.
\<close>

fun read_loop :: "(jsval \<Rightarrow> jsstring) \<Rightarrow> read_result list \<Rightarrow> jsstring \<Rightarrow> page \<Rightarrow> page \<times> js_error option" where
  "read_loop conv [] buffer st = (st, None)"
| "read_loop conv (ReadFailure # rs) buffer st = (st, Some ReadFailed)"
| "read_loop conv (Chunk val # rs) buffer st =
     (case process_chunk conv val buffer st of (buffer', st') \<Rightarrow> read_loop conv rs buffer' st')"

text \<open>
  The update of the \<^verbatim>\<open>catch\<close> block (lines 186 to 193); on an empty list the read of
  \<^verbatim>\<open>lastMessage.role\<close> throws inside the update.
\<close>

definition show_apology :: "message list \<Rightarrow> message list option" where
  "show_apology prev =
     (if prev = [] then None
      else if role (last prev) = Assistant
        then Some (butlast prev @ [(last prev)\<lparr>content := apology\<rparr>])
        else Some prev)"

definition on_error :: "js_error \<Rightarrow> page \<Rightarrow> page" where
  "on_error e st =
     (let st1 = st\<lparr>console_errors := console_errors st @ [e]\<rparr>
      in case show_apology (messages st1) of
           None \<Rightarrow> st1\<lparr>uncaught_errors := uncaught_errors st1 @ [TypeError]\<rparr>
         | Some ms \<Rightarrow> st1\<lparr>messages := ms\<rparr>)"

definition handleSubmit :: "(jsval \<Rightarrow> jsstring) \<Rightarrow> chat_response \<Rightarrow> page \<Rightarrow> page" where
  "handleSubmit conv response st =
     (if trim (input st) = [] then st
      else
        let userMessage = \<lparr>role = User, content = input st\<rparr>;
            st1 = st\<lparr>messages := messages st @ [userMessage], input := [], isLoading := True\<rparr>;
            st2 = st1\<lparr>messages := messages st1 @ [\<lparr>role = Assistant, content = []\<rparr>]\<rparr>;
            st3 = st2\<lparr>chat_requests := chat_requests st2 @ [messages st @ [userMessage]]\<rparr>;
            (st4, thrown) =
              (case response of
                 FetchRejected \<Rightarrow> (st3, Some FetchFailed)
               | NotOk errorData \<Rightarrow> (st3, Some ResponseNotOk)
               | OkNoBody \<Rightarrow> (st3, Some NoReaderAvailable)
               | OkStream reads \<Rightarrow> read_loop conv reads [] st3);
            st5 = (case thrown of None \<Rightarrow> st4 | Some e \<Rightarrow> on_error e st4)
        in st5\<lparr>isLoading := False\<rparr>)"

text \<open>Whether a text holds the record separator.\<close>

fun contains_sep :: "jsstring \<Rightarrow> bool" where
  "contains_sep [] = False"
| "contains_sep [a] = False"
| "contains_sep (a # b # rest) = ((a = LF \<and> b = LF) \<or> contains_sep (b # rest))"

text \<open>The delta that a record appends to the open message, if it appends one.\<close>

definition record_delta :: "(jsval \<Rightarrow> jsstring) \<Rightarrow> jsstring \<Rightarrow> jsstring option" where
  "record_delta conv message =
     (if take 6 message = ascii ''data: '' then
        (case JSON_parse (drop 6 message) of
           None \<Rightarrow> None
         | Some data \<Rightarrow>
             (case get_property (ascii ''content'') data of
                Inr (Some v) \<Rightarrow> Some (js_to_string conv v)
              | _ \<Rightarrow> None))
      else None)"

text \<open>The text of a stream of records, each followed by the separator.\<close>

definition frame_records :: "jsstring list \<Rightarrow> jsstring" where
  "frame_records rs = concat (map (\<lambda>r. r @ [LF, LF]) rs)"


definition example_page :: page where
  "example_page =
     \<lparr>messages = [], input = ascii ''Hi'', isLoading = False, console_errors = [],
      chat_requests = [], uncaught_errors = []\<rparr>"

definition example_open_page :: page where
  "example_open_page =
     \<lparr>messages = [\<lparr>role = User, content = ascii ''Hi''\<rparr>, \<lparr>role = Assistant, content = []\<rparr>],
      input = [], isLoading = True, console_errors = [],
      chat_requests = [[\<lparr>role = User, content = ascii ''Hi''\<rparr>]], uncaught_errors = []\<rparr>"

text \<open>
  A decoder state as the decoder itself produces it: a pending sequence only accepts
  bytes from \<open>0x80\<close> upwards.
\<close>

fun decoder_state_ok :: "utf8_state \<Rightarrow> bool" where
  "decoder_state_ok Idle = True"
| "decoder_state_ok (Pending cp k lo hi) = (0x80 \<le> lo)"

section \<open>The model-status poller: \<^verbatim>\<open>checkModelStatus\<close>\<close>

datatype status = Loading | Ready | Error

text \<open>
  What the status request delivers: \<^verbatim>\<open>fetch\<close> rejects, or a response arrives with its
  \<^verbatim>\<open>ok\<close> flag and the result of \<^verbatim>\<open>response.json()\<close> (\<open>None\<close> when the body is not
  JSON and the call rejects).
\<close>

datatype status_reply = NetworkFailure | Reply bool "jsval option"

text \<open>
  The component state the effect touches and the part of the window it acts on:
  \<open>timers\<close> are the pending timeouts (handle and due time, in milliseconds),
  \<open>next_handle\<close> is the handle the next \<^verbatim>\<open>setTimeout\<close> returns (handles are positive),
  \<open>status_requests\<close> are the times at which a status request was issued, and
  \<open>in_flight\<close> counts the invocations suspended at \<^verbatim>\<open>await fetch\<close>.
\<close>

record poller =
  modelStatus :: status
  lastCheckTime :: int
  checkTimeoutRef :: "nat option"
  timers :: "(nat \<times> int) list"
  next_handle :: nat
  status_requests :: "int list"
  in_flight :: nat

definition initial_poller :: poller where
  "initial_poller =
     \<lparr>modelStatus = Loading, lastCheckTime = 0, checkTimeoutRef = None, timers = [],
      next_handle = 1, status_requests = [], in_flight = 0\<rparr>"

definition clearTimeout :: "nat \<Rightarrow> poller \<Rightarrow> poller" where
  "clearTimeout h st = st\<lparr>timers := filter (\<lambda>(h', due). h' \<noteq> h) (timers st)\<rparr>"

text \<open>\<^verbatim>\<open>if (checkTimeoutRef.current) clearTimeout(checkTimeoutRef.current)\<close>\<close>

definition clear_pending :: "poller \<Rightarrow> poller" where
  "clear_pending st =
     (case checkTimeoutRef st of
        None \<Rightarrow> st
      | Some h \<Rightarrow> if h \<noteq> 0 then clearTimeout h st else st)"

text \<open>\<^verbatim>\<open>checkTimeoutRef.current = setTimeout(checkModelStatus, 60000)\<close> at time \<open>now\<close>.\<close>

definition schedule_check :: "int \<Rightarrow> poller \<Rightarrow> poller" where
  "schedule_check now st =
     st\<lparr>checkTimeoutRef := Some (next_handle st),
        timers := timers st @ [(next_handle st, now + 60000)],
        next_handle := next_handle st + 1\<rparr>"

text \<open>
  The synchronous start of \<^verbatim>\<open>checkModelStatus\<close> (lines 40 to 49), up to the
  \<^verbatim>\<open>await\<close>. The first argument is the value of the variable \<^verbatim>\<open>lastCheckTime\<close> that
  the function closes over, the second is \<^verbatim>\<open>Date.now()\<close>.
\<close>

definition checkModelStatus :: "int \<Rightarrow> int \<Rightarrow> poller \<Rightarrow> poller" where
  "checkModelStatus lastCheckTime_seen currentTime st =
     (if currentTime - lastCheckTime_seen < 60000 \<and> lastCheckTime_seen \<noteq> 0 then st
      else st\<lparr>lastCheckTime := currentTime,
              status_requests := status_requests st @ [currentTime],
              in_flight := in_flight st + 1\<rparr>)"

text \<open>The \<^verbatim>\<open>catch\<close> block (lines 79 to 94).\<close>

definition check_failed :: "int \<Rightarrow> poller \<Rightarrow> poller" where
  "check_failed now st = schedule_check now (clear_pending (st\<lparr>modelStatus := Error\<rparr>))"

text \<open>
  The rest of \<^verbatim>\<open>checkModelStatus\<close> once the request has settled at time \<open>now\<close>
  (lines 59 to 94).
\<close>

definition checkModelStatus_resume :: "(jsstring \<Rightarrow> bool) \<Rightarrow> int \<Rightarrow> status_reply \<Rightarrow> poller \<Rightarrow> poller" where
  "checkModelStatus_resume nonzero now reply st =
     (case reply of
        NetworkFailure \<Rightarrow> check_failed now st
      | Reply ok body \<Rightarrow>
          if \<not> ok then check_failed now st
          else
            (case body of
               None \<Rightarrow> check_failed now st
             | Some data \<Rightarrow>
                 (case get_property (ascii ''status'') data of
                    Inl e \<Rightarrow> check_failed now st
                  | Inr v \<Rightarrow>
                      if truthy nonzero v
                      then clear_pending (st\<lparr>modelStatus := Ready\<rparr>)
                      else schedule_check now (clear_pending st))))"

text \<open>
  The effect of lines 37 to 105 has an empty dependency list: it is set up from the first
  render only, and \<^verbatim>\<open>checkModelStatus\<close>, which the timers call again, is the function
  created by that set-up. The \<^verbatim>\<open>lastCheckTime\<close> it reads is the constant of that render,
  the initial value given to \<^verbatim>\<open>useState\<close>; \<^verbatim>\<open>setLastCheckTime\<close> changes the state of
  the component, not this constant.
\<close>

definition effect_lastCheckTime :: int where
  "effect_lastCheckTime = lastCheckTime initial_poller"

text \<open>
  What can happen to the mounted component: the effect set-up runs and calls
  \<^verbatim>\<open>checkModelStatus\<close>; a pending timeout comes due and calls it; a request in flight
  settles; the effect clean-up runs.
\<close>

datatype event =
    Invoke int
  | TimerFires nat int
  | Settles int status_reply
  | Cleanup

definition step :: "(jsstring \<Rightarrow> bool) \<Rightarrow> poller \<Rightarrow> event \<Rightarrow> poller" where
  "step nonzero st ev =
     (case ev of
        Invoke now \<Rightarrow> checkModelStatus effect_lastCheckTime now st
      | TimerFires h now \<Rightarrow>
          if list_ex (\<lambda>(h', due). h' = h \<and> due \<le> now) (timers st)
          then checkModelStatus effect_lastCheckTime now (clearTimeout h st)
          else st
      | Settles now reply \<Rightarrow>
          if 0 < in_flight st
          then checkModelStatus_resume nonzero now reply (st\<lparr>in_flight := in_flight st - 1\<rparr>)
          else st
      | Cleanup \<Rightarrow> clear_pending st)"

definition run :: "(jsstring \<Rightarrow> bool) \<Rightarrow> event list \<Rightarrow> poller" where
  "run nonzero evs = foldl (step nonzero) initial_poller evs"

text \<open>
  The replies that take \<^verbatim>\<open>checkModelStatus\<close> to its \<^verbatim>\<open>catch\<close> block: the request
  fails, the response is not ok, its body is not JSON, or its body is \<^verbatim>\<open>null\<close>, whose
  \<^verbatim>\<open>status\<close> cannot be read.
\<close>

fun status_failure :: "status_reply \<Rightarrow> bool" where
  "status_failure NetworkFailure = True"
| "status_failure (Reply ok body) = (\<not> ok \<or> body = None \<or> body = Some JNull)"

text \<open>The pending timeouts are at most the one whose handle the ref holds.\<close>

definition timers_tracked :: "poller \<Rightarrow> bool" where
  "timers_tracked st \<longleftrightarrow>
     0 < next_handle st \<and>
     (case checkTimeoutRef st of None \<Rightarrow> True | Some h \<Rightarrow> 0 < h \<and> h < next_handle st) \<and>
     (case timers st of
        [] \<Rightarrow> True
      | [(h, due)] \<Rightarrow> checkTimeoutRef st = Some h
      | _ \<Rightarrow> False)"

section \<open>The stream reader: chunk boundaries\<close>

lemma split_sep_nonempty: "split_sep seg x \<noteq> []"
  by (induction seg x rule: split_sep.induct) auto

lemma split_sep_append:
  "split_sep [] (seg @ x @ y) = split_sep seg (x @ y) \<Longrightarrow>
   split_sep seg (x @ y) = butlast (split_sep seg x) @ split_sep [] (last (split_sep seg x) @ y)"
proof (induction seg x rule: split_sep.induct)
  case (1 seg)
  then show ?case by simp
next
  case (2 seg a)
  then show ?case by simp
next
  case (3 seg a b rest)
  show ?case
  proof (cases "a = LF \<and> b = LF")
    case True
    have "split_sep [] (rest @ y) =
      butlast (split_sep [] rest) @ split_sep [] (last (split_sep [] rest) @ y)"
      using "3.IH"(1)[OF True] by simp
    with True show ?thesis by (simp add: split_sep_nonempty)
  next
    case False
    have unfold: "split_sep seg (a # b # z) = split_sep (seg @ [a]) (b # z)" for z
      using False by auto
    have "split_sep [] ((seg @ [a]) @ (b # rest) @ y) = split_sep (seg @ [a]) ((b # rest) @ y)"
      using "3.prems" unfold[of "rest @ y"] by simp
    from "3.IH"(2)[OF False this] show ?thesis
      using unfold[of "rest @ y"] unfold[of rest] by simp
  qed
qed

lemma split_append:
  "split (x @ y) = butlast (split x) @ split (last (split x) @ y)"
  using split_sep_append[of "[]" x y] by (simp add: split_def)

lemma process_records_append:
  "process_records conv (xs @ ys) st = process_records conv ys (process_records conv xs st)"
  by (induction xs arbitrary: st) auto

lemma process_text_append:
  "process_text conv (t1 @ t2) buffer st =
     (case process_text conv t1 buffer st of (b1, s1) \<Rightarrow> process_text conv t2 b1 s1)"
proof -
  let ?P1 = "split (buffer @ t1)"
  let ?P2 = "split (last ?P1 @ t2)"
  have ne: "?P2 \<noteq> []" by (simp add: split_def split_sep_nonempty)
  have "split (buffer @ t1 @ t2) = butlast ?P1 @ ?P2"
    using split_append[of "buffer @ t1" t2] by simp
  then show ?thesis
    using ne by (simp add: process_text_def Let_def butlast_append process_records_append)
qed

lemma read_loop_concat:
  "cs \<noteq> [] \<Longrightarrow> read_loop conv (map Chunk cs) buffer st =
     (snd (process_text conv (concat (map decode cs)) buffer st), None)"
proof (induction cs arbitrary: buffer st)
  case Nil
  then show ?case by simp
next
  case (Cons c cs)
  show ?case
  proof (cases cs)
    case Nil
    then show ?thesis by (simp add: process_chunk_def split: prod.splits)
  next
    case (Cons c' cs')
    then have "cs \<noteq> []" by simp
    from Cons.IH[OF this] show ?thesis
      by (simp add: process_chunk_def process_text_append split: prod.splits)
  qed
qed

lemma utf8_lead_ok: "utf8_lead b = (out, s) \<Longrightarrow> decoder_state_ok s"
  by (auto simp: utf8_lead_def Let_def split: if_splits)

lemma utf8_lead_LF: "utf8_lead 0x0A = ([0x0A], Idle)"
  by (simp add: utf8_lead_def)

lemma utf8_run_LF:
  "decoder_state_ok s \<Longrightarrow>
   utf8_run s (a @ 0x0A # b) = utf8_run s a @ 0x0A # utf8_run Idle b"
proof (induction s a rule: utf8_run.induct)
  case 1
  show ?case by (simp add: utf8_lead_LF)
next
  case (2 cp k lo hi)
  then show ?case by (simp add: utf8_lead_LF)
next
  case (3 b' bs)
  obtain out s' where l: "utf8_lead b' = (out, s')" by (cases "utf8_lead b'")
  from "3.IH"[OF l[symmetric] utf8_lead_ok[OF l]] l show ?case by simp
next
  case (4 cp k lo hi b' bs)
  obtain out s' where l: "utf8_lead b' = (out, s')" by (cases "utf8_lead b'")
  show ?case
  proof (cases "unat b' < lo \<or> hi < unat b'")
    case True
    from "4.IH"(1)[OF refl True l[symmetric] utf8_lead_ok[OF l]] True l
    show ?thesis by simp
  next
    case False
    show ?thesis
    proof (cases "k = 1")
      case True
      from "4.IH"(2)[OF refl False True] False True show ?thesis by simp
    next
      case k: False
      from "4.IH"(3)[OF refl False k] False k show ?thesis by simp
    qed
  qed
qed

lemma strip_bom_snoc: "strip_bom (xs @ 0x0A # ys) = strip_bom xs @ 0x0A # ys"
  by (cases xs) (auto simp: strip_bom_def)

lemma utf16_LF: "utf16 0x0A = [LF]"
  by (simp add: utf16_def LF_def)

lemma decode_LF_split:
  "decode (a @ 0x0A # 0x0A # b) = decode (a @ [0x0A]) @ decode (0x0A # b)"
proof -
  have 1: "utf8_run Idle (a @ 0x0A # 0x0A # b) = utf8_run Idle a @ 0x0A # 0x0A # utf8_run Idle b"
    using utf8_run_LF[of Idle a "0x0A # b"] utf8_run_LF[of Idle "[]" b] by simp
  have 2: "utf8_run Idle (a @ [0x0A]) = utf8_run Idle a @ [0x0A]"
    using utf8_run_LF[of Idle a "[]"] by simp
  have 3: "utf8_run Idle (0x0A # b) = 0x0A # utf8_run Idle b"
    using utf8_run_LF[of Idle "[]" b] by simp
  have 4: "strip_bom (0x0A # ys) = 0x0A # ys" for ys
    by (simp add: strip_bom_def)
  show ?thesis
    unfolding decode_def 1 2 3 4 using strip_bom_snoc[of "utf8_run Idle a" "[]"]
      strip_bom_snoc[of "utf8_run Idle a" "0x0A # utf8_run Idle b"]
    by (simp add: utf16_LF)
qed

lemma decode_snoc_LF: "decode (a @ [0x0A]) = decode a @ [LF]"
  using utf8_run_LF[of Idle a "[]"] strip_bom_snoc[of "utf8_run Idle a" "[]"]
  by (simp add: decode_def utf16_LF)

lemma decode_LF_single: "decode [0x0A] = [LF]"
  by (simp add: decode_def utf8_lead_def strip_bom_def utf16_LF)

lemma split_sep_record:
  "\<not> contains_sep (r @ [LF]) \<Longrightarrow>
   split_sep seg (r @ LF # LF # z) = (seg @ r) # split_sep [] z"
proof (induction r arbitrary: seg rule: contains_sep.induct)
  case 1
  then show ?case by simp
next
  case (2 a)
  then show ?case by auto
next
  case (3 a b rest)
  from "3.prems" have nsep: "\<not> (a = LF \<and> b = LF)" and rec: "\<not> contains_sep ((b # rest) @ [LF])"
    by auto
  have "split_sep seg ((a # b # rest) @ LF # LF # z) = split_sep (seg @ [a]) ((b # rest) @ LF # LF # z)"
    using nsep by auto
  also have "\<dots> = ((seg @ [a]) @ (b # rest)) # split_sep [] z"
    by (rule "3.IH"[OF rec])
  finally show ?case by simp
qed

lemma split_record: "\<not> contains_sep (r @ [LF]) \<Longrightarrow> split (r @ LF # LF # z) = r # split z"
  using split_sep_record[of r "[]" z] by (simp add: split_def)

lemma process_text_record:
  assumes "\<not> contains_sep (r @ [LF])"
  shows "process_text conv (r @ LF # LF # z) [] st = process_text conv z [] (process_record conv r st)"
proof -
  have ne: "split z \<noteq> []" by (simp add: split_def split_sep_nonempty)
  show ?thesis
    using ne by (simp add: process_text_def Let_def split_record[OF assms])
qed

lemmas json_eval = JSON_parse_def ascii_def cons_tok_def cons_fst_def is_json_ws_def is_digit_def
  unescape_def hex4_def hex_val_def lex_number_def number_int_def number_frac_def number_exp_def

lemmas decode_eval = decode_def utf8_lead_def utf16_def strip_bom_def utf8_ascii_def

lemmas page_eval = handleSubmit_def trim_def is_whitespace_def process_chunk_def process_text_def
  split_def LF_def process_record_def get_property_def js_to_string_def append_delta_def
  on_error_def show_apology_def Let_def

lemma split_no_sep: "\<not> contains_sep x \<Longrightarrow> split_sep seg x = [seg @ x]"
  by (induction x arbitrary: seg rule: contains_sep.induct) auto

lemma read_loop_two:
  "read_loop conv (Chunk c1 # Chunk c2 # rs) buffer st =
     (case process_text conv (decode c1 @ decode c2) buffer st of
        (b, s) \<Rightarrow> read_loop conv rs b s)"
  by (simp add: process_chunk_def process_text_append split: prod.splits)

text \<open>
  C2. A record separator that falls between two chunks (the first chunk ends with its
  first line feed, the second starts with its second) gives the same run as the two chunks
  joined; the record it ends is handled exactly once, when the second line feed arrives;
  and the chunks \<^verbatim>\<open>data: {"content":"Hel\<close> and \<^verbatim>\<open>lo"}\n\n\<close> leave the open
  message with the content \<^verbatim>\<open>Hello\<close>.
\<close>

theorem separator_split_between_chunks:
  "read_loop conv (Chunk (a @ [0x0A]) # Chunk (0x0A # b) # rs) buffer st =
     read_loop conv (Chunk (a @ 0x0A # 0x0A # b) # rs) buffer st
   \<and> (\<not> contains_sep (buffer @ decode a @ [LF]) \<longrightarrow>
        read_loop conv [Chunk (a @ [0x0A]), Chunk [0x0A]] buffer st =
          (process_record conv (buffer @ decode a) st, None))
   \<and> map content (messages (handleSubmit conv
        (OkStream [Chunk (utf8_ascii ''data: {\"content\":\"Hel''),
                   Chunk (utf8_ascii ''lo\"}'' @ [0x0A, 0x0A])]) example_page))
      = [ascii ''Hi'', ascii ''Hello'']"
proof (intro conjI impI)
  show "read_loop conv (Chunk (a @ [0x0A]) # Chunk (0x0A # b) # rs) buffer st =
     read_loop conv (Chunk (a @ 0x0A # 0x0A # b) # rs) buffer st"
    by (simp only: read_loop_two decode_LF_split[symmetric])
      (simp add: process_chunk_def)
next
  assume clean: "\<not> contains_sep (buffer @ decode a @ [LF])"
  have one: "split (buffer @ decode a @ [LF]) = [buffer @ decode a @ [LF]]"
    using split_no_sep[OF clean, of "[]"] by (simp add: split_def)
  have two: "split (buffer @ decode a @ [LF, LF]) = [buffer @ decode a, []]"
    using split_record[of "buffer @ decode a" "[]"] clean by (simp add: split_def)
  show "read_loop conv [Chunk (a @ [0x0A]), Chunk [0x0A]] buffer st =
          (process_record conv (buffer @ decode a) st, None)"
    by (simp add: process_chunk_def process_text_def decode_snoc_LF decode_LF_single one two)
next
  show "map content (messages (handleSubmit conv
        (OkStream [Chunk (utf8_ascii ''data: {\"content\":\"Hel''),
                   Chunk (utf8_ascii ''lo\"}'' @ [0x0A, 0x0A])]) example_page))
      = [ascii ''Hi'', ascii ''Hello'']"
    by (simp add: example_page_def page_eval decode_eval json_eval)
qed

theorem separator_split_between_chunks_witness:
  "map content (messages (fst (read_loop (\<lambda>v. [])
      [Chunk (utf8_ascii ''data: {\"content\":\"Hello\"}'' @ [0x0A]), Chunk [0x0A]] []
      example_open_page)))
   = [ascii ''Hi'', ascii ''Hello'']"
proof -
  have "\<not> contains_sep ([] @ decode (utf8_ascii ''data: {\"content\":\"Hello\"}'') @ [LF])"
    by (simp add: decode_eval LF_def)
  with separator_split_between_chunks[of "\<lambda>v. []"
      "utf8_ascii ''data: {\"content\":\"Hello\"}''" "[]" "[]" "[]" example_open_page]
  have "read_loop (\<lambda>v. [])
      [Chunk (utf8_ascii ''data: {\"content\":\"Hello\"}'' @ [0x0A]), Chunk [0x0A]] []
      example_open_page
     = (process_record (\<lambda>v. []) ([] @ decode (utf8_ascii ''data: {\"content\":\"Hello\"}''))
          example_open_page, None)"
    by blast
  then show ?thesis
    by (simp add: example_open_page_def process_record_def get_property_def js_to_string_def
        append_delta_def decode_eval json_eval)
qed

section \<open>The stream reader: records and deltas\<close>

lemma process_text_empty: "process_text conv [] [] st = ([], st)"
  by (simp add: process_text_def split_def)

lemma process_text_frame:
  "\<forall>r \<in> set rs. \<not> contains_sep (r @ [LF]) \<Longrightarrow>
   process_text conv (frame_records rs @ z) [] st =
     process_text conv z [] (process_records conv rs st)"
proof (induction rs arbitrary: st)
  case Nil
  then show ?case by (simp add: frame_records_def)
next
  case (Cons r rs)
  from Cons.prems have r: "\<not> contains_sep (r @ [LF])" and rs: "\<forall>r \<in> set rs. \<not> contains_sep (r @ [LF])"
    by auto
  have "frame_records (r # rs) @ z = r @ LF # LF # (frame_records rs @ z)"
    by (simp add: frame_records_def)
  then show ?case
    using process_text_record[OF r, of conv "frame_records rs @ z" st] Cons.IH[OF rs]
    by simp
qed

lemma process_text_no_sep:
  "\<not> contains_sep z \<Longrightarrow> process_text conv z [] st = (z, st)"
  using split_no_sep[of z "[]"] by (simp add: process_text_def split_def)

lemma read_loop_records:
  assumes "\<forall>r \<in> set rs. \<not> contains_sep (r @ [LF])"
    and "concat (map decode cs) = frame_records rs @ rest"
    and "\<not> contains_sep rest"
  shows "read_loop conv (map Chunk cs) [] st = (process_records conv rs st, None)"
proof (cases cs)
  case Nil
  with assms(2) have "rs = []" by (cases rs) (auto simp: frame_records_def)
  with Nil show ?thesis by simp
next
  case (Cons c cs')
  then have "cs \<noteq> []" by simp
  from read_loop_concat[OF this, of conv "[]" st] assms(2)
    process_text_frame[OF assms(1), of conv rest st]
  show ?thesis by (simp add: process_text_no_sep[OF assms(3)])
qed

lemma append_delta_nonempty:
  "ms \<noteq> [] \<Longrightarrow>
   append_delta d ms = butlast ms @ [(last ms)\<lparr>content := content (last ms) @ d\<rparr>]"
  by (simp add: append_delta_def Let_def)

lemma process_record_delta:
  "record_delta conv r = Some d \<Longrightarrow>
   process_record conv r st = st\<lparr>messages := append_delta d (messages st)\<rparr>"
  by (auto simp: record_delta_def process_record_def split: if_splits option.splits sum.splits)

lemma process_record_malformed:
  "take 6 r = ascii ''data: '' \<Longrightarrow> JSON_parse (drop 6 r) = None \<Longrightarrow>
   process_record conv r st = st\<lparr>console_errors := console_errors st @ [SyntaxError]\<rparr>"
  by (simp add: process_record_def)

lemma process_records_deltas:
  "\<forall>(r, d) \<in> set rds. record_delta conv r = Some d \<Longrightarrow> messages st \<noteq> [] \<Longrightarrow>
   process_records conv (map fst rds) st =
     st\<lparr>messages := butlast (messages st) @
        [(last (messages st))\<lparr>content := content (last (messages st)) @ concat (map snd rds)\<rparr>]\<rparr>"
proof (induction rds arbitrary: st)
  case Nil
  then show ?case by simp
next
  case (Cons p rds)
  obtain r d where p: "p = (r, d)" by (cases p)
  with Cons.prems have rd: "record_delta conv r = Some d"
    and rest: "\<forall>(r, d) \<in> set rds. record_delta conv r = Some d" by auto
  let ?st1 = "st\<lparr>messages := append_delta d (messages st)\<rparr>"
  have ne: "messages ?st1 \<noteq> []" by (simp add: append_delta_def Let_def)
  have "process_records conv (map fst (p # rds)) st = process_records conv (map fst rds) ?st1"
    using p process_record_delta[OF rd] by simp
  also have "\<dots> = ?st1\<lparr>messages := butlast (messages ?st1) @
        [(last (messages ?st1))\<lparr>content := content (last (messages ?st1)) @ concat (map snd rds)\<rparr>]\<rparr>"
    by (rule Cons.IH[OF rest ne])
  finally show ?case
    using Cons.prems(2) p by (simp add: append_delta_nonempty)
qed

lemma process_records_nonempty:
  "messages st \<noteq> [] \<Longrightarrow> messages (process_records conv rs st) \<noteq> []"
proof (induction rs arbitrary: st)
  case Nil
  then show ?case by simp
next
  case (Cons r rs)
  have "messages (process_record conv r st) \<noteq> []"
    using Cons.prems
    by (auto simp: process_record_def append_delta_def Let_def split: option.splits sum.splits)
  from Cons.IH[OF this] show ?case by simp
qed


text \<open>
  C9. A stream of valid data records, possibly followed by the start of a further one,
  and cut into chunks anywhere the decoded text allows:
  every delta is appended to the open message in the order received, each update starting
  from the list the update before it left, so the open message ends with its initial
  content followed by all the deltas in order.
\<close>

theorem deltas_applied_in_order:
  assumes "\<forall>(r, d) \<in> set rds. record_delta conv r = Some d \<and> \<not> contains_sep (r @ [LF])"
    and "concat (map decode cs) = frame_records (map fst rds) @ rest"
    and "\<not> contains_sep rest"
    and "messages st \<noteq> []"
  shows "read_loop conv (map Chunk cs) [] st =
    (st\<lparr>messages := butlast (messages st) @
        [(last (messages st))\<lparr>content := content (last (messages st)) @ concat (map snd rds)\<rparr>]\<rparr>,
     None)"
proof -
  from assms(1) have clean: "\<forall>r \<in> set (map fst rds). \<not> contains_sep (r @ [LF])"
    and valid: "\<forall>(r, d) \<in> set rds. record_delta conv r = Some d"
    by auto
  show ?thesis
    using read_loop_records[OF clean assms(2,3), of conv st]
      process_records_deltas[OF valid assms(4)]
    by simp
qed


theorem deltas_applied_in_order_witness:
  "map content (messages (fst (read_loop (\<lambda>v. [])
      (map Chunk [utf8_ascii ''data: {\"content\":\"Hel\"}'' @ [0x0A],
                  [0x0A] @ utf8_ascii ''data: {\"con'',
                  utf8_ascii ''tent\":\"lo\"}'' @ [0x0A, 0x0A] @ utf8_ascii ''data: {\"co'']) []
      example_open_page)))
   = [ascii ''Hi'', ascii ''Hello'']"
proof -
  let ?rds = "[(ascii ''data: {\"content\":\"Hel\"}'', ascii ''Hel''),
               (ascii ''data: {\"content\":\"lo\"}'', ascii ''lo'')]"
  let ?cs = "[utf8_ascii ''data: {\"content\":\"Hel\"}'' @ [0x0A],
              [0x0A] @ utf8_ascii ''data: {\"con'',
              utf8_ascii ''tent\":\"lo\"}'' @ [0x0A, 0x0A] @ utf8_ascii ''data: {\"co'']"
  have h1: "\<forall>(r, d) \<in> set ?rds. record_delta (\<lambda>v. []) r = Some d \<and> \<not> contains_sep (r @ [LF])"
    by (simp add: record_delta_def get_property_def js_to_string_def json_eval LF_def)
  have h2: "concat (map decode ?cs) = frame_records (map fst ?rds) @ ascii ''data: {\"co''"
    by (simp add: decode_eval frame_records_def ascii_def LF_def)
  have h3: "\<not> contains_sep (ascii ''data: {\"co'')"
    by (simp add: ascii_def LF_def)
  have h4: "messages example_open_page \<noteq> []"
    by (simp add: example_open_page_def)
  from deltas_applied_in_order[OF h1 h2 h3 h4] show ?thesis
    by (simp add: example_open_page_def ascii_def)
qed


text \<open>
  C3. A record with the data prefix whose payload is not JSON is reported to the console
  and changes nothing else; the loop goes on, and the deltas of the valid records after it
  are appended to the open message, on top of whatever the records before it did.
\<close>

theorem malformed_record_skipped:
  assumes "take 6 r = ascii ''data: ''" and "JSON_parse (drop 6 r) = None"
    and "\<forall>x \<in> set (xs @ r # map fst yds). \<not> contains_sep (x @ [LF])"
    and "\<forall>(y, d) \<in> set yds. record_delta conv y = Some d"
    and "concat (map decode cs) = frame_records (xs @ r # map fst yds) @ rest"
    and "\<not> contains_sep rest"
    and "messages st \<noteq> []"
  shows "process_record conv r st = st\<lparr>console_errors := console_errors st @ [SyntaxError]\<rparr>
    \<and> read_loop conv (map Chunk cs) [] st =
        (let before = process_records conv xs st
         in before\<lparr>console_errors := console_errors before @ [SyntaxError],
                   messages := butlast (messages before) @
                     [(last (messages before))\<lparr>content :=
                        content (last (messages before)) @ concat (map snd yds)\<rparr>]\<rparr>,
         None)"
proof
  show "process_record conv r st = st\<lparr>console_errors := console_errors st @ [SyntaxError]\<rparr>"
    by (rule process_record_malformed[OF assms(1,2)])
next
  let ?before = "process_records conv xs st"
  let ?logged = "?before\<lparr>console_errors := console_errors ?before @ [SyntaxError]\<rparr>"
  have ne: "messages ?logged \<noteq> []"
    using process_records_nonempty[OF assms(7), of conv xs] by simp
  have "read_loop conv (map Chunk cs) [] st =
      (process_records conv (xs @ r # map fst yds) st, None)"
    by (rule read_loop_records[OF assms(3) assms(5) assms(6)])
  also have "process_records conv (xs @ r # map fst yds) st =
      process_records conv (map fst yds) ?logged"
    by (simp add: process_records_append process_record_malformed[OF assms(1,2)])
  also have "\<dots> = ?logged\<lparr>messages := butlast (messages ?logged) @
        [(last (messages ?logged))\<lparr>content := content (last (messages ?logged)) @ concat (map snd yds)\<rparr>]\<rparr>"
    by (rule process_records_deltas[OF assms(4) ne])
  finally show "read_loop conv (map Chunk cs) [] st =
        (let before = process_records conv xs st
         in before\<lparr>console_errors := console_errors before @ [SyntaxError],
                   messages := butlast (messages before) @
                     [(last (messages before))\<lparr>content :=
                        content (last (messages before)) @ concat (map snd yds)\<rparr>]\<rparr>,
         None)"
    by (simp add: Let_def)
qed

theorem malformed_record_skipped_witness:
  "map content (messages (fst (read_loop (\<lambda>v. [])
      (map Chunk [utf8_ascii ''data: {\"content\":\"a\"}'' @ [0x0A, 0x0A] @ utf8_ascii ''data: {oops'',
                  [0x0A, 0x0A] @ utf8_ascii ''data: {\"content\":\"b\"}'' @ [0x0A, 0x0A]]) []
      example_open_page)))
   = [ascii ''Hi'', ascii ''ab'']
   \<and> console_errors (fst (read_loop (\<lambda>v. [])
      (map Chunk [utf8_ascii ''data: {\"content\":\"a\"}'' @ [0x0A, 0x0A] @ utf8_ascii ''data: {oops'',
                  [0x0A, 0x0A] @ utf8_ascii ''data: {\"content\":\"b\"}'' @ [0x0A, 0x0A]]) []
      example_open_page))
   = [SyntaxError]"
proof -
  let ?xs = "[ascii ''data: {\"content\":\"a\"}'']"
  let ?r = "ascii ''data: {oops''"
  let ?yds = "[(ascii ''data: {\"content\":\"b\"}'', ascii ''b'')]"
  let ?cs = "[utf8_ascii ''data: {\"content\":\"a\"}'' @ [0x0A, 0x0A] @ utf8_ascii ''data: {oops'',
              [0x0A, 0x0A] @ utf8_ascii ''data: {\"content\":\"b\"}'' @ [0x0A, 0x0A]]"
  have h1: "take 6 ?r = ascii ''data: ''" by (simp add: ascii_def)
  have h2: "JSON_parse (drop 6 ?r) = None" by (simp add: json_eval)
  have h3: "\<forall>x \<in> set (?xs @ ?r # map fst ?yds). \<not> contains_sep (x @ [LF])"
    by (simp add: ascii_def LF_def)
  have h4: "\<forall>(y, d) \<in> set ?yds. record_delta (\<lambda>v. []) y = Some d"
    by (simp add: record_delta_def get_property_def js_to_string_def json_eval)
  have h5: "concat (map decode ?cs) = frame_records (?xs @ ?r # map fst ?yds) @ []"
    by (simp add: decode_eval frame_records_def ascii_def LF_def)
  have h6: "\<not> contains_sep []" by simp
  have h7: "messages example_open_page \<noteq> []"
    by (simp add: example_open_page_def)
  from malformed_record_skipped[OF h1 h2 h3 h4 h5 h6 h7] show ?thesis
    by (simp add: example_open_page_def process_record_def get_property_def js_to_string_def
        append_delta_def Let_def json_eval)
qed


text \<open>
  C1. The claim fails on the code when a chunk boundary falls inside a multi-byte
  character. The two bytes of U+00E9 arrive in different chunks; each chunk is decoded by a
  decoder of its own, so each half becomes U+FFFD, while the two chunks joined into one
  give the character itself.
\<close>

theorem split_character_is_corrupted:
  "map content (messages (handleSubmit conv
      (OkStream [Chunk (utf8_ascii ''data: {\"content\":\"'' @ [0xC3]),
                 Chunk ([0xA9] @ utf8_ascii ''\"}'' @ [0x0A, 0x0A])]) example_page))
   = [ascii ''Hi'', [0xFFFD, 0xFFFD]]
  \<and> map content (messages (handleSubmit conv
      (OkStream [Chunk ((utf8_ascii ''data: {\"content\":\"'' @ [0xC3]) @
                        ([0xA9] @ utf8_ascii ''\"}'' @ [0x0A, 0x0A]))]) example_page))
   = [ascii ''Hi'', [0xE9]]"
  by (simp add: example_page_def page_eval decode_eval json_eval)

lemma all_whitespace_trim:
  assumes "\<forall>c \<in> set s. is_whitespace c"
  shows "trim s = []"
proof -
  from assms have empty: "dropWhile is_whitespace s = []"
    by (induction s) auto
  show ?thesis unfolding trim_def empty by simp
qed

text \<open>
  C10. Submitting an input that is empty or all white space changes nothing: no message
  is appended, no request is recorded, the input field and the loading flag stay as they
  were.
\<close>

theorem blank_input_is_noop:
  "\<forall>c \<in> set (input st). is_whitespace c \<Longrightarrow> handleSubmit conv response st = st"
  by (simp add: handleSubmit_def all_whitespace_trim)

theorem blank_input_is_noop_witness:
  "handleSubmit (\<lambda>v. []) (OkStream [Chunk (utf8_ascii ''data: {\"content\":\"x\"}'' @ [0x0A, 0x0A])])
     (example_page\<lparr>input := ascii ''  '' @ [0x09, 0x3000]\<rparr>)
   = example_page\<lparr>input := ascii ''  '' @ [0x09, 0x3000]\<rparr>"
proof -
  have "\<forall>c \<in> set (input (example_page\<lparr>input := ascii ''  '' @ [0x09, 0x3000]\<rparr>)). is_whitespace c"
    by (simp add: ascii_def is_whitespace_def)
  from blank_input_is_noop[OF this] show ?thesis .
qed









section \<open>The poller: timers and status\<close>

lemma clear_pending_tracked:
  assumes "timers_tracked st"
  shows "timers (clear_pending st) = []"
    and "checkTimeoutRef (clear_pending st) = checkTimeoutRef st"
    and "next_handle (clear_pending st) = next_handle st"
    and "modelStatus (clear_pending st) = modelStatus st"
    and "status_requests (clear_pending st) = status_requests st"
    and "in_flight (clear_pending st) = in_flight st"
    and "lastCheckTime (clear_pending st) = lastCheckTime st"
  using assms
  by (auto simp: timers_tracked_def clear_pending_def clearTimeout_def
      split: option.splits list.splits if_splits)

lemma clear_pending_keeps_tracked:
  "timers_tracked st \<Longrightarrow> timers_tracked (clear_pending st)"
  using clear_pending_tracked[of st]
  by (auto simp: timers_tracked_def split: option.splits)

lemma schedule_check_tracked:
  "timers_tracked st \<Longrightarrow> timers st = [] \<Longrightarrow> timers_tracked (schedule_check now st)"
  by (auto simp: timers_tracked_def schedule_check_def split: option.splits)

lemma tracked_modelStatus:
  "timers_tracked (st\<lparr>modelStatus := s\<rparr>) = timers_tracked st"
  by (auto simp: timers_tracked_def split: option.splits list.splits)

lemma tracked_in_flight:
  "timers_tracked (st\<lparr>in_flight := n\<rparr>) = timers_tracked st"
  by (auto simp: timers_tracked_def split: option.splits list.splits)

lemma check_failed_tracked:
  "timers_tracked st \<Longrightarrow> timers_tracked (check_failed now st)"
  unfolding check_failed_def
  by (intro schedule_check_tracked clear_pending_keeps_tracked clear_pending_tracked(1))
    (simp_all add: tracked_modelStatus)

lemma resume_tracked:
  assumes "timers_tracked st"
  shows "timers_tracked (checkModelStatus_resume nonzero now reply st)"
proof -
  have ready: "timers_tracked (clear_pending (st\<lparr>modelStatus := Ready\<rparr>))"
    using assms by (simp add: clear_pending_keeps_tracked tracked_modelStatus)
  have again: "timers_tracked (schedule_check now (clear_pending st))"
    using assms by (simp add: schedule_check_tracked clear_pending_keeps_tracked clear_pending_tracked(1))
  show ?thesis
    unfolding checkModelStatus_resume_def
    using check_failed_tracked[OF assms, of now] ready again
    by (auto split: status_reply.splits option.splits sum.splits)
qed

lemma checkModelStatus_tracked:
  "timers_tracked st \<Longrightarrow> timers_tracked (checkModelStatus seen now st)"
  by (auto simp: checkModelStatus_def timers_tracked_def split: option.splits list.splits)

lemma clearTimeout_tracked:
  "timers_tracked st \<Longrightarrow> timers_tracked (clearTimeout h st)"
  by (auto simp: timers_tracked_def clearTimeout_def split: option.splits list.splits)

lemma step_tracked:
  "timers_tracked st \<Longrightarrow> timers_tracked (step nonzero st ev)"
  unfolding step_def
  by (cases ev)
    (simp_all add: checkModelStatus_tracked clearTimeout_tracked resume_tracked
      clear_pending_keeps_tracked tracked_in_flight)

lemma initial_tracked: "timers_tracked initial_poller"
  by (simp add: timers_tracked_def initial_poller_def)

lemma foldl_step_tracked:
  "timers_tracked st \<Longrightarrow> timers_tracked (foldl (step nonzero) st evs)"
  by (induction evs arbitrary: st) (simp_all add: step_tracked)

lemma run_tracked: "timers_tracked (run nonzero evs)"
  unfolding run_def by (rule foldl_step_tracked[OF initial_tracked])

lemma tracked_at_most_one: "timers_tracked st \<Longrightarrow> length (timers st) \<le> 1"
  by (auto simp: timers_tracked_def split: list.splits)

text \<open>
  C7. Whatever the history of the poller (set-ups, timers coming due, requests settling
  with success or failure, clean-ups), at most one timeout is pending, and it is the one
  the ref holds. In particular a transport error followed by a successful retry that
  finds the model not ready leaves one pending timeout, the one of the retry.
\<close>

theorem at_most_one_pending_timer:
  "length (timers (run nonzero evs)) \<le> 1
   \<and> timers_tracked (run nonzero evs)
   \<and> timers (run nonzero
        [Invoke 1000, Settles 1200 NetworkFailure, TimerFires 1 61200,
         Settles 61400 (Reply True (Some (JObj [(ascii ''status'', JBool False)])))])
      = [(2, 121400)]"
proof (intro conjI)
  show "length (timers (run nonzero evs)) \<le> 1"
    by (rule tracked_at_most_one[OF run_tracked])
  show "timers_tracked (run nonzero evs)" by (rule run_tracked)
  show "timers (run nonzero
        [Invoke 1000, Settles 1200 NetworkFailure, TimerFires 1 61200,
         Settles 61400 (Reply True (Some (JObj [(ascii ''status'', JBool False)])))])
      = [(2, 121400)]"
    by (simp add: run_def step_def initial_poller_def effect_lastCheckTime_def
        checkModelStatus_def checkModelStatus_resume_def check_failed_def clear_pending_def
        clearTimeout_def schedule_check_def get_property_def truthy_def)
qed

lemmas poller_eval = run_def step_def initial_poller_def effect_lastCheckTime_def
  checkModelStatus_def checkModelStatus_resume_def check_failed_def clear_pending_def
  clearTimeout_def schedule_check_def get_property_def truthy_def

lemma schedule_after_clear:
  assumes "timers_tracked st"
  shows "timers (schedule_check now (clear_pending st)) = [(next_handle st, now + 60000)]"
    and "checkTimeoutRef (schedule_check now (clear_pending st)) = Some (next_handle st)"
    and "modelStatus (schedule_check now (clear_pending st)) = modelStatus st"
    and "status_requests (schedule_check now (clear_pending st)) = status_requests st"
  using clear_pending_tracked[OF assms] by (simp_all add: schedule_check_def)

lemma run_snoc: "run nonzero (evs @ [ev]) = step nonzero (run nonzero evs) ev"
  by (simp add: run_def)

lemma settles_in_flight:
  "0 < in_flight (run nonzero evs) \<Longrightarrow>
   run nonzero (evs @ [Settles now reply]) =
     checkModelStatus_resume nonzero now reply
       ((run nonzero evs)\<lparr>in_flight := in_flight (run nonzero evs) - 1\<rparr>)"
  by (simp add: run_snoc step_def)

text \<open>
  C5, as the code has it. A request in flight settles with an ok response whose body has
  a readable \<^verbatim>\<open>status\<close>. If the status is true the flag becomes \<open>Ready\<close> and no
  timeout is pending afterwards. If it is false the flag is left as it was, whatever it
  was (\<open>Loading\<close> stays \<open>Loading\<close>, \<open>Error\<close> stays \<open>Error\<close>: lines 72 to 78
  never set it), and exactly one timeout is pending, due 60000 ms after the response was
  handled.
\<close>

theorem status_response_ready_or_not:
  assumes "0 < in_flight (run nonzero evs)"
    and "get_property (ascii ''status'') data = Inr v"
  shows "(truthy nonzero v \<longrightarrow>
            modelStatus (run nonzero (evs @ [Settles now (Reply True (Some data))])) = Ready
          \<and> timers (run nonzero (evs @ [Settles now (Reply True (Some data))])) = [])
       \<and> (\<not> truthy nonzero v \<longrightarrow>
            modelStatus (run nonzero (evs @ [Settles now (Reply True (Some data))]))
              = modelStatus (run nonzero evs)
          \<and> timers (run nonzero (evs @ [Settles now (Reply True (Some data))]))
              = [(next_handle (run nonzero evs), now + 60000)])"
proof -
  let ?st = "(run nonzero evs)\<lparr>in_flight := in_flight (run nonzero evs) - 1\<rparr>"
  have tr: "timers_tracked ?st"
    using run_tracked[of nonzero evs] by (simp add: tracked_in_flight)
  have tr': "timers_tracked (?st\<lparr>modelStatus := Ready\<rparr>)"
    using tr by (simp add: tracked_modelStatus)
  show ?thesis
    unfolding settles_in_flight[OF assms(1)]
    using assms(2) clear_pending_tracked(1,4)[OF tr'] schedule_after_clear(1,3)[OF tr, of now]
    by (simp add: checkModelStatus_resume_def)
qed

theorem status_response_ready_or_not_witness:
  "modelStatus (run (\<lambda>l. True)
      ([Invoke 1000] @ [Settles 1500 (Reply True (Some (JObj [(ascii ''status'', JBool False)])))]))
     = Loading
   \<and> timers (run (\<lambda>l. True)
      ([Invoke 1000] @ [Settles 1500 (Reply True (Some (JObj [(ascii ''status'', JBool False)])))]))
     = [(1, 61500)]
   \<and> modelStatus (run (\<lambda>l. True)
      ([Invoke 1000] @ [Settles 1500 (Reply True (Some (JObj [(ascii ''status'', JBool True)])))]))
     = Ready
   \<and> timers (run (\<lambda>l. True)
      ([Invoke 1000] @ [Settles 1500 (Reply True (Some (JObj [(ascii ''status'', JBool True)])))]))
     = []"
proof -
  have i: "0 < in_flight (run (\<lambda>l. True) [Invoke 1000])"
    by (simp add: poller_eval)
  have f: "get_property (ascii ''status'') (JObj [(ascii ''status'', JBool False)]) = Inr (Some (JBool False))"
    by (simp add: get_property_def)
  have t: "get_property (ascii ''status'') (JObj [(ascii ''status'', JBool True)]) = Inr (Some (JBool True))"
    by (simp add: get_property_def)
  have nf: "\<not> truthy (\<lambda>l. True) (Some (JBool False))" by (simp add: truthy_def)
  have tt: "truthy (\<lambda>l. True) (Some (JBool True))" by (simp add: truthy_def)
  have st: "modelStatus (run (\<lambda>l. True) [Invoke 1000]) = Loading"
    "next_handle (run (\<lambda>l. True) [Invoke 1000]) = 1"
    by (simp_all add: poller_eval)
  from status_response_ready_or_not[OF i f, of 1500] status_response_ready_or_not[OF i t, of 1500]
    nf tt st
  show ?thesis by simp
qed

text \<open>
  C5 as claimed fails where the flag is \<open>Error\<close> when the not-ready response arrives:
  the first request fails, the timeout fires, and the retry finds the model not ready.
  The flag is \<open>Error\<close> before that response and is still \<open>Error\<close>, not
  \<open>Loading\<close>, after it; the one timeout of the retry is pending.
\<close>

theorem not_ready_after_error_counterexample:
  "0 < in_flight (run (\<lambda>l. True) [Invoke 1000, Settles 1200 NetworkFailure, TimerFires 1 61200])
   \<and> modelStatus (run (\<lambda>l. True) [Invoke 1000, Settles 1200 NetworkFailure, TimerFires 1 61200])
       = Error
   \<and> get_property (ascii ''status'') (JObj [(ascii ''status'', JBool False)])
       = Inr (Some (JBool False))
   \<and> modelStatus (run (\<lambda>l. True)
        ([Invoke 1000, Settles 1200 NetworkFailure, TimerFires 1 61200] @
         [Settles 61400 (Reply True (Some (JObj [(ascii ''status'', JBool False)])))])) = Error
   \<and> modelStatus (run (\<lambda>l. True)
        ([Invoke 1000, Settles 1200 NetworkFailure, TimerFires 1 61200] @
         [Settles 61400 (Reply True (Some (JObj [(ascii ''status'', JBool False)])))])) \<noteq> Loading
   \<and> timers (run (\<lambda>l. True)
        ([Invoke 1000, Settles 1200 NetworkFailure, TimerFires 1 61200] @
         [Settles 61400 (Reply True (Some (JObj [(ascii ''status'', JBool False)])))]))
       = [(2, 121400)]"
  by (simp add: poller_eval)

text \<open>
  C6. A request in flight settles with a failure (the request rejected, a response that
  is not ok, a body that is not JSON): the flag becomes \<open>Error\<close>, exactly one timeout is
  pending, due 60000 ms later as after a not-ready response, and when it comes due a new
  request is issued.
\<close>

theorem status_failure_retried:
  assumes "0 < in_flight (run nonzero evs)" and "status_failure reply"
  shows "modelStatus (run nonzero (evs @ [Settles now reply])) = Error
       \<and> timers (run nonzero (evs @ [Settles now reply]))
           = [(next_handle (run nonzero evs), now + 60000)]
       \<and> status_requests (run nonzero
           (evs @ [Settles now reply, TimerFires (next_handle (run nonzero evs)) (now + 60000)]))
           = status_requests (run nonzero evs) @ [now + 60000]"
proof -
  let ?st = "(run nonzero evs)\<lparr>in_flight := in_flight (run nonzero evs) - 1\<rparr>"
  have tr: "timers_tracked (?st\<lparr>modelStatus := Error\<rparr>)"
    using run_tracked[of nonzero evs] by (simp add: tracked_modelStatus tracked_in_flight)
  have resume: "run nonzero (evs @ [Settles now reply]) = check_failed now ?st"
    unfolding settles_in_flight[OF assms(1)] using assms(2)
    by (cases reply) (auto simp: checkModelStatus_resume_def get_property_def split: option.splits)
  have 1: "modelStatus (check_failed now ?st) = Error"
    and 2: "timers (check_failed now ?st) = [(next_handle (run nonzero evs), now + 60000)]"
    and 3: "status_requests (check_failed now ?st) = status_requests (run nonzero evs)"
    using schedule_after_clear(1,3,4)[OF tr, of now] by (simp_all add: check_failed_def)
  have "run nonzero (evs @ [Settles now reply, TimerFires (next_handle (run nonzero evs)) (now + 60000)])
      = step nonzero (check_failed now ?st) (TimerFires (next_handle (run nonzero evs)) (now + 60000))"
    using run_snoc[of nonzero "evs @ [Settles now reply]"] resume by simp
  moreover have "status_requests (step nonzero (check_failed now ?st)
              (TimerFires (next_handle (run nonzero evs)) (now + 60000)))
           = status_requests (check_failed now ?st) @ [now + 60000]"
    using 2 by (simp add: step_def checkModelStatus_def effect_lastCheckTime_def
        initial_poller_def clearTimeout_def)
  ultimately show ?thesis unfolding resume using 1 2 3 by simp
qed

theorem status_failure_retried_witness:
  "modelStatus (run (\<lambda>l. True) ([Invoke 1000] @ [Settles 1500 (Reply False None)])) = Error
   \<and> timers (run (\<lambda>l. True) ([Invoke 1000] @ [Settles 1500 (Reply False None)])) = [(1, 61500)]
   \<and> status_requests (run (\<lambda>l. True)
        ([Invoke 1000] @ [Settles 1500 (Reply False None), TimerFires 1 61500])) = [1000, 61500]"
proof -
  have i: "0 < in_flight (run (\<lambda>l. True) [Invoke 1000])"
    by (simp add: poller_eval)
  have h: "status_failure (Reply False None)" by simp
  have st: "next_handle (run (\<lambda>l. True) [Invoke 1000]) = 1"
    "status_requests (run (\<lambda>l. True) [Invoke 1000]) = [1000]"
    by (simp_all add: poller_eval)
  from status_failure_retried[OF i h, of 1500] st
  show ?thesis by simp
qed

lemma checkModelStatus_guard:
  "seen \<noteq> 0 \<Longrightarrow> now - seen < 60000 \<Longrightarrow> checkModelStatus seen now st = st"
  by (simp add: checkModelStatus_def)

text \<open>
  C4. The claim fails on the code. The guard compares the time with the
  \<^verbatim>\<open>lastCheckTime\<close> of the render that set the effect up, which stays 0, so it never
  holds: after a check performed at time 1000 (the state then holds 1000), a second
  invocation at time 2000 issues a second request, and so does every invocation.
\<close>

theorem throttle_reads_stale_time:
  "lastCheckTime (run nonzero [Invoke 1000]) = 1000
   \<and> status_requests (run nonzero [Invoke 1000, Cleanup, Invoke 2000]) = [1000, 2000]
   \<and> in_flight (run nonzero [Invoke 1000, Cleanup, Invoke 2000]) = 2
   \<and> status_requests (step nonzero st (Invoke now)) = status_requests st @ [now]"
  by (simp add: poller_eval)

end
